theory Spec2Isabelle
  imports Complex_Main
begin

section \<open>Python strings\<close>

text \<open>
  A Python \<open>str\<close> is modelled as a \<open>string\<close>, one \<open>char\<close> per code point, so the model
  covers the code points below 256.  The functions of this section are the string
  methods the scripts call: \<open>str.isspace\<close>, \<open>str.strip\<close>, \<open>str.lower\<close>, \<open>str.count\<close>,
  the operator \<open>in\<close> on two strings and \<open>str.split\<close> without argument.
\<close>

definition isspace :: "char \<Rightarrow> bool" where
  "isspace c = (of_char c \<in> {9, 10, 11, 12, 13, 28, 29, 30, 31, 32, 133, 160 :: nat})"

definition strip :: "string \<Rightarrow> string" where
  "strip s = rev (dropWhile isspace (rev (dropWhile isspace s)))"

definition lower_char :: "char \<Rightarrow> char" where
  "lower_char c =
     (let n = (of_char c :: nat)
      in if (65 \<le> n \<and> n \<le> 90) \<or> (192 \<le> n \<and> n \<le> 222 \<and> n \<noteq> 215)
         then char_of (n + 32) else c)"

definition lower :: "string \<Rightarrow> string" where
  "lower s = map lower_char s"

text \<open>\<open>s.startswith(sub)\<close>.\<close>

fun startswith :: "string \<Rightarrow> string \<Rightarrow> bool" where
  "startswith s [] = True"
| "startswith [] (b # bs) = False"
| "startswith (a # as) (b # bs) = (if a = b then startswith as bs else False)"

text \<open>\<open>sub in s\<close> for two strings: \<open>sub\<close> occurs in \<open>s\<close> as a contiguous block.\<close>

fun contains :: "string \<Rightarrow> string \<Rightarrow> bool" where
  "contains [] sub = (sub = [])"
| "contains (c # cs) sub = (if startswith (c # cs) sub then True else contains cs sub)"

text \<open>
  \<open>s.count(sub)\<close>: the number of non-overlapping occurrences, found from left to right;
  the empty string is counted once at every position.
\<close>

function count_from :: "string \<Rightarrow> string \<Rightarrow> nat" where
  "count_from [] sub = 0"
| "count_from (c # cs) sub =
     (if sub = [] then 0
      else if startswith (c # cs) sub then Suc (count_from (drop (length sub) (c # cs)) sub)
      else count_from cs sub)"
  by pat_completeness auto
termination
  by (relation "measure (\<lambda>(s, sub). length s)") (auto simp: neq_Nil_conv)

definition count :: "string \<Rightarrow> string \<Rightarrow> nat" where
  "count s sub = (if sub = [] then Suc (length s) else count_from s sub)"

text \<open>\<open>s.split()\<close>: the maximal blocks of characters that are not white space.\<close>

fun split_acc :: "string \<Rightarrow> string \<Rightarrow> string list" where
  "split_acc w [] = (if w = [] then [] else [w])"
| "split_acc w (c # cs) =
     (if isspace c then (if w = [] then split_acc [] cs else w # split_acc [] cs)
      else split_acc (w @ [c]) cs)"

definition split :: "string \<Rightarrow> string list" where
  "split s = split_acc [] s"

section \<open>Regular expressions of \<open>paper_utils.py\<close>\<close>

text \<open>
  The patterns that \<open>sanitize_query\<close> hands to \<open>re.match\<close> and \<open>re.search\<close> are built from
  single-character items, alternatives, sequences and repetition.  They are run by
  derivatives; \<open>lang\<close> gives the words a pattern stands for, and the matcher is proved to
  agree with it.  A single-character item is a literal of a pattern compiled with
  \<open>re.IGNORECASE\<close>, the class \<open>\s\<close>, or a bracket of listed characters that may also hold
  \<open>\s\<close>.
\<close>

datatype item = IgnoreCase char | Whitespace | Bracket "char list" bool

fun holds :: "item \<Rightarrow> char \<Rightarrow> bool" where
  "holds (IgnoreCase c) d = (lower_char d = lower_char c)"
| "holds Whitespace d = isspace d"
| "holds (Bracket cs ws) d = (d \<in> set cs \<or> (ws \<and> isspace d))"

datatype rx = Never | Empty | Sym item | Or rx rx | Then rx rx | Many rx

primrec nullable :: "rx \<Rightarrow> bool" where
  "nullable Never = False"
| "nullable Empty = True"
| "nullable (Sym k) = False"
| "nullable (Or r s) = (nullable r \<or> nullable s)"
| "nullable (Then r s) = (nullable r \<and> nullable s)"
| "nullable (Many r) = True"

primrec deriv :: "char \<Rightarrow> rx \<Rightarrow> rx" where
  "deriv c Never = Never"
| "deriv c Empty = Never"
| "deriv c (Sym k) = (if holds k c then Empty else Never)"
| "deriv c (Or r s) = Or (deriv c r) (deriv c s)"
| "deriv c (Then r s) =
     (if nullable r then Or (Then (deriv c r) s) (deriv c s) else Then (deriv c r) s)"
| "deriv c (Many r) = Then (deriv c r) (Many r)"

text \<open>The whole string is a word of the pattern.\<close>

primrec fullmatch :: "rx \<Rightarrow> string \<Rightarrow> bool" where
  "fullmatch r [] = nullable r"
| "fullmatch r (c # cs) = fullmatch (deriv c r) cs"

text \<open>Some prefix of the string is a word of the pattern.\<close>

primrec prefixmatch :: "rx \<Rightarrow> string \<Rightarrow> bool" where
  "prefixmatch r [] = nullable r"
| "prefixmatch r (c # cs) = (nullable r \<or> prefixmatch (deriv c r) cs)"

text \<open>\<open>re.search(r, s)\<close> finds a match: a word of the pattern starts at some position.\<close>

primrec re_search :: "rx \<Rightarrow> string \<Rightarrow> bool" where
  "re_search r [] = nullable r"
| "re_search r (c # cs) = (prefixmatch r (c # cs) \<or> re_search r cs)"

text \<open>
  \<open>re.match('^' r '$', s)\<close> finds a match: \<open>$\<close> holds at the end of the string and also
  just before a line feed that ends it.
\<close>

definition re_match_to_end :: "rx \<Rightarrow> string \<Rightarrow> bool" where
  "re_match_to_end r s =
     (fullmatch r s \<or> (s \<noteq> [] \<and> last s = CHR 0x0A \<and> fullmatch r (butlast s)))"

inductive_set star :: "string set \<Rightarrow> string set" for A :: "string set" where
  star_nil: "[] \<in> star A"
| star_app: "u \<in> A \<Longrightarrow> v \<in> star A \<Longrightarrow> u @ v \<in> star A"

primrec lang :: "rx \<Rightarrow> string set" where
  "lang Never = {}"
| "lang Empty = {[]}"
| "lang (Sym k) = {[c] | c. holds k c}"
| "lang (Or r s) = lang r \<union> lang s"
| "lang (Then r s) = {u @ v | u v. u \<in> lang r \<and> v \<in> lang s}"
| "lang (Many r) = star (lang r)"

text \<open>A literal word of a pattern compiled with \<open>re.IGNORECASE\<close>.\<close>

definition iword :: "string \<Rightarrow> rx" where
  "iword s = foldr (\<lambda>c r. Then (Sym (IgnoreCase c)) r) s Empty"

subsection \<open>The matcher finds the words of the pattern\<close>

lemma nullable_iff: "nullable r \<longleftrightarrow> [] \<in> lang r"
  by (induction r) (auto intro: star.star_nil)

lemma star_Cons_iff:
  "c # w \<in> star A \<longleftrightarrow> (\<exists>u v. w = u @ v \<and> c # u \<in> A \<and> v \<in> star A)"
proof
  assume "c # w \<in> star A"
  then show "\<exists>u v. w = u @ v \<and> c # u \<in> A \<and> v \<in> star A"
  proof (induction "c # w" arbitrary: rule: star.induct)
    case (star_app u v)
    show ?case
    proof (cases u)
      case Nil
      with star_app show ?thesis by simp
    next
      case (Cons a u')
      with star_app have "w = u' @ v" "c # u' \<in> A" by auto
      with star_app(2) show ?thesis by blast
    qed
  qed
next
  assume "\<exists>u v. w = u @ v \<and> c # u \<in> A \<and> v \<in> star A"
  then obtain u v where "w = u @ v" "c # u \<in> A" "v \<in> star A" by blast
  then have "(c # u) @ v \<in> star A" by (intro star.star_app)
  with \<open>w = u @ v\<close> show "c # w \<in> star A" by simp
qed

lemma lang_deriv: "lang (deriv c r) = {w. c # w \<in> lang r}"
proof (induction r)
  case (Then r s)
  show ?case
  proof (cases "nullable r")
    case True
    then have "[] \<in> lang r" by (simp add: nullable_iff)
    with Then show ?thesis
      by (auto simp: True append_eq_Cons_conv Cons_eq_append_conv)
  next
    case False
    then have "[] \<notin> lang r" by (simp add: nullable_iff)
    with Then show ?thesis
      by (auto simp: False append_eq_Cons_conv Cons_eq_append_conv) 
  qed
next
  case (Many r)
  then show ?case by (auto simp: star_Cons_iff)
qed auto

lemma fullmatch_iff: "fullmatch r s \<longleftrightarrow> s \<in> lang r"
  by (induction s arbitrary: r) (simp_all add: nullable_iff lang_deriv)

lemma prefixmatch_iff: "prefixmatch r s \<longleftrightarrow> (\<exists>u v. s = u @ v \<and> u \<in> lang r)"
proof (induction s arbitrary: r)
  case Nil
  show ?case by (simp add: nullable_iff)
next
  case (Cons c cs)
  show ?case
    by (auto simp: Cons nullable_iff lang_deriv Cons_eq_append_conv)
qed

lemma re_search_iff: "re_search r s \<longleftrightarrow> (\<exists>u v w. s = u @ v @ w \<and> v \<in> lang r)"
proof (induction s)
  case Nil
  show ?case by (simp add: nullable_iff)
next
  case (Cons c cs)
  have "(\<exists>u v w. c # cs = u @ v @ w \<and> v \<in> lang r)
        \<longleftrightarrow> (\<exists>v w. c # cs = v @ w \<and> v \<in> lang r) \<or> (\<exists>u v w. cs = u @ v @ w \<and> v \<in> lang r)"
    (is "?L \<longleftrightarrow> ?A \<or> ?B")
  proof
    assume ?L
    then obtain u v w where uvw: "c # cs = u @ v @ w" "v \<in> lang r" by blast
    show "?A \<or> ?B"
    proof (cases u)
      case Nil
      with uvw show ?thesis by auto
    next
      case (Cons a u')
      with uvw have "cs = u' @ v @ w" by simp
      with uvw(2) show ?thesis by blast
    qed
  next
    assume "?A \<or> ?B"
    then show ?L
    proof
      assume ?A
      then obtain v w where "c # cs = [] @ v @ w" "v \<in> lang r" by auto
      then show ?L by blast
    next
      assume ?B
      then obtain u v w where "cs = u @ v @ w" "v \<in> lang r" by blast
      then have "c # cs = (c # u) @ v @ w" by simp
      with \<open>v \<in> lang r\<close> show ?L by blast
    qed
  qed
  with Cons show ?case by (simp only: re_search.simps prefixmatch_iff) 
qed

lemma star_Sym: "s \<in> star {[c] | c. P c} \<longleftrightarrow> (\<forall>c\<in>set s. P c)"
proof (induction s)
  case Nil
  show ?case by (simp add: star.star_nil)
next
  case (Cons a s)
  then show ?case by (auto simp: star_Cons_iff)
qed

section \<open>\<open>paper_utils.sanitize_query\<close>\<close>

text \<open>The character class \<open>[a-zA-Z0-9\s\-,.\'\"():?!\[\]]\<close> of \<open>safe_pattern\<close>.\<close>

definition safe_class :: item where
  "safe_class =
     Bracket (''abcdefghijklmnopqrstuvwxyz'' @ ''ABCDEFGHIJKLMNOPQRSTUVWXYZ'' @ ''0123456789''
              @ [CHR ''-'', CHR '','', CHR ''.'', CHR 0x27, CHR 0x22, CHR ''('', CHR '')'',
                 CHR '':'', CHR ''?'', CHR ''!'', CHR ''['', CHR '']'']) True"

text \<open>\<open>safe_pattern\<close> between its anchors: the class, once or more.\<close>

definition safe_pattern :: rx where
  "safe_pattern = Then (Sym safe_class) (Many (Sym safe_class))"

definition dangerous_patterns :: "rx list" where
  "dangerous_patterns =
     [Then (Sym (IgnoreCase CHR '';''))
        (Then (Many (Sym Whitespace))
           (Or (iword ''DROP'') (Or (iword ''DELETE'') (Or (iword ''INSERT'')
              (Or (iword ''UPDATE'') (iword ''SELECT'')))))),
      Or (iword ''&&'') (iword ''||''),
      iword ''<script'',
      iword ''javascript:'',
      iword ''$('',
      iword [CHR 0x60]]"

definition sanitize_query :: "string \<Rightarrow> string option" where
  "sanitize_query query =
     (if query = [] then None
      else let query = strip query
           in if length query > 200 then None
              else if \<not> re_match_to_end safe_pattern query then None
              else if list_ex (\<lambda>pattern. re_search pattern query) dangerous_patterns then None
              else Some query)"

text \<open>
  The contract of the sanitizer in the words of the spec: a string is whitelisted when
  each of its characters is in the class, and it carries an injection signature when a
  word of one of the dangerous patterns occurs somewhere in it.
\<close>

definition matches_somewhere :: "rx \<Rightarrow> string \<Rightarrow> bool" where
  "matches_somewhere r s = (\<exists>u v w. s = u @ v @ w \<and> v \<in> lang r)"

definition whitelisted :: "string \<Rightarrow> bool" where
  "whitelisted t = (\<forall>c\<in>set t. holds safe_class c)"

definition injection_signature :: "string \<Rightarrow> bool" where
  "injection_signature t = (\<exists>r\<in>set dangerous_patterns. matches_somewhere r t)"

subsection \<open>What the sanitizer accepts\<close>

lemma lang_safe_pattern: "s \<in> lang safe_pattern \<longleftrightarrow> s \<noteq> [] \<and> (\<forall>c\<in>set s. holds safe_class c)"
proof (cases s)
  case Nil
  then show ?thesis by (simp add: safe_pattern_def)
next
  case (Cons a t)
  have "(\<exists>u v. a # t = u @ v \<and> (\<exists>c. u = [c] \<and> holds safe_class c) \<and> (\<forall>x\<in>set v. holds safe_class x))
        \<longleftrightarrow> holds safe_class a \<and> (\<forall>x\<in>set t. holds safe_class x)"
  proof
    assume "\<exists>u v. a # t = u @ v \<and> (\<exists>c. u = [c] \<and> holds safe_class c) \<and> (\<forall>x\<in>set v. holds safe_class x)"
    then show "holds safe_class a \<and> (\<forall>x\<in>set t. holds safe_class x)" by auto
  next
    assume "holds safe_class a \<and> (\<forall>x\<in>set t. holds safe_class x)"
    then have "a # t = [a] @ t \<and> (\<exists>c. [a] = [c] \<and> holds safe_class c) \<and> (\<forall>x\<in>set t. holds safe_class x)"
      by simp
    then show "\<exists>u v. a # t = u @ v \<and> (\<exists>c. u = [c] \<and> holds safe_class c) \<and> (\<forall>x\<in>set v. holds safe_class x)"
      by blast
  qed
  with Cons show ?thesis by (simp add: safe_pattern_def star_Sym)
qed

lemma safe_line_feed: "holds safe_class (CHR 0x0A)"
  by (simp add: safe_class_def isspace_def)

lemma re_match_safe_pattern:
  "re_match_to_end safe_pattern s \<longleftrightarrow> s \<noteq> [] \<and> (\<forall>c\<in>set s. holds safe_class c)"
proof (cases "s = []")
  case True
  then show ?thesis by (simp add: re_match_to_end_def fullmatch_iff lang_safe_pattern)
next
  case False
  then have s: "s = butlast s @ [last s]" by simp
  then have "set s = set (butlast s) \<union> {last s}"
    by (metis list.set(1) list.simps(15) set_append)
  then have "last s = CHR 0x0A \<Longrightarrow>
      (\<forall>c\<in>set (butlast s). holds safe_class c) \<Longrightarrow> (\<forall>c\<in>set s. holds safe_class c)"
    using safe_line_feed by auto
  then show ?thesis using False
    by (auto simp: re_match_to_end_def fullmatch_iff lang_safe_pattern)
qed

lemma strip_Nil: "strip [] = []"
  by (simp add: strip_def)

text \<open>
  C2.  \<open>sanitize_query\<close> returns the trimmed string exactly when it is non-empty, at most
  200 characters long, made of whitelisted characters only and free of every injection
  signature; on every other input it returns \<open>None\<close>.
\<close>

theorem sanitize_query_whitelist:
  "sanitize_query q =
     (if strip q \<noteq> [] \<and> length (strip q) \<le> 200 \<and> whitelisted (strip q)
         \<and> \<not> injection_signature (strip q)
      then Some (strip q) else None)"
proof (cases "q = []")
  case True
  then show ?thesis by (simp add: sanitize_query_def strip_Nil)
next
  case False
  have "list_ex (\<lambda>pattern. re_search pattern (strip q)) dangerous_patterns
        \<longleftrightarrow> injection_signature (strip q)"
    by (simp add: list_ex_iff injection_signature_def matches_somewhere_def re_search_iff)
  with False show ?thesis
    by (simp add: sanitize_query_def Let_def re_match_safe_pattern whitelisted_def)
qed

theorem sanitize_query_whitelist_witness:
  "strip ''  hello world '' = ''hello world'' \<and> whitelisted ''hello world''
   \<and> \<not> injection_signature ''hello world''
   \<and> sanitize_query ''  hello world '' = Some ''hello world''"
proof -
  let ?q = "''  hello world ''"
  have run: "sanitize_query ?q = Some ''hello world''"
    by code_simp
  have s: "strip ?q = ''hello world''"
    by code_simp
  have "whitelisted (strip ?q) \<and> \<not> injection_signature (strip ?q)" (is ?C)
  proof (rule ccontr)
    assume "\<not> ?C"
    with sanitize_query_whitelist [of ?q] have "sanitize_query ?q = None"
      by (simp only: simp_thms if_False)
    with run show False by (simp only: option.distinct)
  qed
  with run s show ?thesis by (simp only: simp_thms)
qed

text \<open>The three examples of the spec.\<close>

lemma sanitize_query_field_tags:
  "sanitize_query ''Cash SS[Author] AND thalamus[Title]'' = Some ''Cash SS[Author] AND thalamus[Title]''"
  by code_simp

lemma sanitize_query_drop_table: "sanitize_query ''test; DROP TABLE papers'' = None"
  by code_simp

lemma sanitize_query_too_long: "sanitize_query (replicate 201 CHR ''a'') = None"
  by code_simp

text \<open>A string of whitelisted characters that is rejected for its signature.\<close>

lemma sanitize_query_javascript: "sanitize_query '' JavaScript:x'' = None"
  by code_simp

section \<open>Exceptions\<close>

text \<open>
  A function of the scripts that can raise returns \<open>py_error + 'a\<close>: \<open>Inl\<close> the exception,
  \<open>Inr\<close> the value returned.
\<close>

datatype py_error = KeyError | TypeError | AttributeError | OverflowError | ZeroDivisionError | ValueError

section \<open>\<open>topic_classifier.py\<close>\<close>

text \<open>
  The configuration is a Python dictionary from topic names to their data; it is kept as
  the list of its items in the order of declaration, which is the order in which the
  dictionary is iterated.
\<close>

record topic_data =
  ttl_hours :: int
  topic_keywords :: "string list"

type_synonym topic_config = "(string \<times> topic_data) list"

definition TOPIC_CONFIG :: topic_config where
  "TOPIC_CONFIG =
     [(''epilepsy_clinical'',
       \<lparr>ttl_hours = 168,
        topic_keywords =
          [''epilepsy'', ''seizure'', ''interictal'', ''ictal'', ''epileptiform'',
           ''iEEG'', ''sEEG'', ''ECoG'', ''thalamus'', ''hippocampus'',
           ''deep brain stimulation'', ''DBS'', ''RNS'', ''responsive neurostimulation'',
           ''antiepileptic'', ''anticonvulsant'', ''temporal lobe epilepsy'']\<rparr>),
      (''methods_reviews'',
       \<lparr>ttl_hours = 720,
        topic_keywords =
          [''review'', ''systematic review'', ''meta-analysis'', ''survey'',
           ''methods'', ''algorithm'', ''framework'', ''open source'',
           ''benchmark'', ''dataset'', ''tutorial'', ''perspective'']\<rparr>),
      (''foundational'',
       \<lparr>ttl_hours = 720,
        topic_keywords =
          [''foundation model'', ''pretrain'', ''self-supervised'',
           ''transfer learning'', ''large language model'', ''transformer'',
           ''BERT'', ''GPT'', ''generative model'']\<rparr>),
      (''general'', \<lparr>ttl_hours = 24, topic_keywords = []\<rparr>)]"

definition topic_score :: "string \<Rightarrow> topic_data \<Rightarrow> nat" where
  "topic_score text topic_data = sum_list (map (\<lambda>kw. count text (lower kw)) (topic_keywords topic_data))"

definition topic_scores :: "topic_config \<Rightarrow> string \<Rightarrow> (string \<times> nat) list" where
  "topic_scores config text =
     map (\<lambda>(topic_name, topic_data). (topic_name, topic_score text topic_data))
       (filter (\<lambda>(topic_name, topic_data). topic_name \<noteq> ''general'') config)"

text \<open>
  \<open>max(topic_scores, key=topic_scores.get)\<close> walks the items in order and replaces the best
  one only by an item that is greater; \<open>max(topic_scores.values())\<close> is the score it ends
  with.
\<close>

fun max_from :: "('a \<times> nat) \<Rightarrow> ('a \<times> nat) list \<Rightarrow> 'a \<times> nat" where
  "max_from best [] = best"
| "max_from best (x # xs) = max_from (if snd best < snd x then x else best) xs"

definition classify :: "topic_config \<Rightarrow> string \<Rightarrow> string \<Rightarrow> py_error + string \<times> int" where
  "classify config title abstract =
     (let text = lower (title @ '' '' @ abstract);
          scores = topic_scores config text;
          best_topic =
            (case scores of
               [] \<Rightarrow> ''general''
             | s # rest \<Rightarrow>
                 if snd (max_from s rest) = 0 then ''general'' else fst (max_from s rest))
      in case map_of config best_topic of
           None \<Rightarrow> Inl KeyError
         | Some topic_data \<Rightarrow> Inr (best_topic, ttl_hours topic_data))"

definition classify_paper :: "string \<Rightarrow> string \<Rightarrow> py_error + string \<times> int" where
  "classify_paper title abstract = classify TOPIC_CONFIG title abstract"

subsection \<open>The bucket that \<open>classify\<close> picks\<close>

lemma max_from_split:
  "\<exists>pre post. best # xs = pre @ max_from best xs # post
      \<and> (\<forall>x\<in>set pre. snd x < snd (max_from best xs))
      \<and> (\<forall>x\<in>set post. snd x \<le> snd (max_from best xs))"
proof (induction xs arbitrary: best)
  case Nil
  have "best # [] = [] @ max_from best [] # []" by simp
  then show ?case by fastforce
next
  case (Cons x xs)
  define b where "b = (if snd best < snd x then x else best)"
  define m where "m = max_from b xs"
  from Cons [of b] obtain pre post where split: "b # xs = pre @ m # post"
    and pre: "\<forall>y\<in>set pre. snd y < snd m" and post: "\<forall>y\<in>set post. snd y \<le> snd m"
    unfolding m_def by blast
  have m: "max_from best (x # xs) = m" by (simp add: m_def b_def)
  have b_le: "snd b \<le> snd m"
  proof (cases pre)
    case Nil
    with split show ?thesis by simp
  next
    case (Cons p ps)
    with split have "b \<in> set pre" by simp
    with pre show ?thesis by (simp add: less_imp_le)
  qed
  show ?case
  proof (cases "snd best < snd x")
    case True
    then have "b = x" by (simp add: b_def)
    with split have "best # x # xs = (best # pre) @ m # post" by simp
    moreover from True b_le \<open>b = x\<close> have "snd best < snd m" by simp
    ultimately show ?thesis using pre post unfolding m
      by (intro exI [of _ "best # pre"] exI [of _ post]) simp
  next
    case False
    then have "b = best" by (simp add: b_def)
    show ?thesis
    proof (cases pre)
      case Nil
      with split \<open>b = best\<close> have "best # x # xs = [] @ m # (x # post)" and "m = best"
        by simp_all
      moreover from this False have "snd x \<le> snd m" by simp
      ultimately show ?thesis using post unfolding m
        by (intro exI [of _ "[]"] exI [of _ "x # post"]) simp
    next
      case (Cons p ps)
      with split \<open>b = best\<close> have p: "p = best" and xs: "xs = ps @ m # post" by simp_all
      then have "best # x # xs = (best # x # ps) @ m # post" by simp
      moreover from pre Cons p have "snd best < snd m" by simp
      moreover from this False have "snd x < snd m" by simp
      moreover from pre Cons have "\<forall>y\<in>set ps. snd y < snd m" by simp
      ultimately show ?thesis using post unfolding m
        by (intro exI [of _ "best # x # ps"] exI [of _ post]) simp
    qed
  qed
qed

lemma map_filter_split:
  "map f (filter P xs) = pre @ r # post \<Longrightarrow>
   \<exists>before x after. xs = before @ x # after \<and> P x \<and> f x = r
      \<and> map f (filter P before) = pre \<and> map f (filter P after) = post"
proof (induction xs arbitrary: pre)
  case Nil
  then show ?case by simp
next
  case (Cons a xs)
  show ?case
  proof (cases "P a")
    case False
    with Cons.prems have "map f (filter P xs) = pre @ r # post" by simp
    from Cons.IH [OF this] obtain before x after where
      "xs = before @ x # after" "P x" "f x = r"
      "map f (filter P before) = pre" "map f (filter P after) = post" by blast
    with False have "a # xs = (a # before) @ x # after \<and> P x \<and> f x = r
      \<and> map f (filter P (a # before)) = pre \<and> map f (filter P after) = post" by simp
    then show ?thesis by blast
  next
    case True
    show ?thesis
    proof (cases pre)
      case Nil
      with Cons.prems True have "a # xs = [] @ a # xs \<and> P a \<and> f a = r
        \<and> map f (filter P []) = pre \<and> map f (filter P xs) = post" by simp
      then show ?thesis by blast
    next
      case (Cons p ps)
      with Cons.prems True have fa: "f a = p" and "map f (filter P xs) = ps @ r # post" by simp_all
      from Cons.IH [OF this(2)] obtain before x after where
        "xs = before @ x # after" "P x" "f x = r"
        "map f (filter P before) = ps" "map f (filter P after) = post" by blast
      with True fa Cons have "a # xs = (a # before) @ x # after \<and> P x \<and> f x = r
        \<and> map f (filter P (a # before)) = pre \<and> map f (filter P after) = post" by simp
      then show ?thesis by blast
    qed
  qed
qed

lemma map_of_split:
  "distinct (map fst xs) \<Longrightarrow> xs = before @ (k, v) # after \<Longrightarrow> map_of xs k = Some v"
  by (induction before arbitrary: xs) (auto simp: rev_image_eqI)

text \<open>
  C9.  For a configuration (a dictionary, so its keys are distinct) that holds the bucket
  \<open>general\<close>, \<open>classify\<close> returns \<open>general\<close> when every other bucket scores zero; otherwise it
  returns a bucket with a positive score that no bucket exceeds and that every bucket
  declared before it falls short of, together with the time to live of the bucket
  returned.  The score of a bucket is the number of occurrences of its lowercased keywords
  in the lowercased title and abstract.  For the title
  \<open>Thalamic DBS for Drug-Resistant Epilepsy\<close> and the abstract of the script's own test
  case, which mentions deep brain stimulation and iEEG, the result is \<open>epilepsy_clinical\<close>
  with 168 hours.
\<close>

theorem classify_first_highest:
  assumes "distinct (map fst config)" and "map_of config ''general'' = Some g"
  shows "(\<exists>topic d. classify config title abstract = Inr (topic, ttl_hours d)
          \<and> map_of config topic = Some d
          \<and> (if \<forall>(n, e)\<in>set config. n \<noteq> ''general'' \<longrightarrow>
                   topic_score (lower (title @ '' '' @ abstract)) e = 0
              then topic = ''general''
              else topic \<noteq> ''general''
                \<and> 0 < topic_score (lower (title @ '' '' @ abstract)) d
                \<and> (\<exists>before after. config = before @ (topic, d) # after
                     \<and> (\<forall>(n, e)\<in>set before. n \<noteq> ''general'' \<longrightarrow>
                           topic_score (lower (title @ '' '' @ abstract)) e
                           < topic_score (lower (title @ '' '' @ abstract)) d)
                     \<and> (\<forall>(n, e)\<in>set after. n \<noteq> ''general'' \<longrightarrow>
                           topic_score (lower (title @ '' '' @ abstract)) e
                           \<le> topic_score (lower (title @ '' '' @ abstract)) d))))
       \<and> classify TOPIC_CONFIG ''Thalamic DBS for Drug-Resistant Epilepsy''
            ''We tested deep brain stimulation in 10 patients with intractable seizures using iEEG.''
          = Inr (''epilepsy_clinical'', 168)"
proof
  define tx where "tx = lower (title @ '' '' @ abstract)"
  define P where "P = (\<lambda>(n :: string, e :: topic_data). n \<noteq> ''general'')"
  define f where "f = (\<lambda>(n :: string, e). (n, topic_score tx e))"
  define scores where "scores = topic_scores config tx"
  have scores: "scores = map f (filter P config)"
    by (simp add: scores_def topic_scores_def f_def P_def)
  have cl: "classify config title abstract =
      (let best_topic =
             (case scores of
                [] \<Rightarrow> ''general''
              | s # rest \<Rightarrow>
                  if snd (max_from s rest) = 0 then ''general'' else fst (max_from s rest))
       in case map_of config best_topic of
            None \<Rightarrow> Inl KeyError
          | Some topic_data \<Rightarrow> Inr (best_topic, ttl_hours topic_data))"
    unfolding classify_def scores_def tx_def Let_def by simp
  let ?zero = "\<forall>(n, e)\<in>set config. n \<noteq> ''general'' \<longrightarrow> topic_score tx e = 0"
  have zero_iff: "?zero \<longleftrightarrow> (\<forall>x\<in>set scores. snd x = 0)"
    by (auto simp: scores f_def P_def)
  show "\<exists>topic d. classify config title abstract = Inr (topic, ttl_hours d)
          \<and> map_of config topic = Some d
          \<and> (if \<forall>(n, e)\<in>set config. n \<noteq> ''general'' \<longrightarrow>
                   topic_score (lower (title @ '' '' @ abstract)) e = 0
              then topic = ''general''
              else topic \<noteq> ''general''
                \<and> 0 < topic_score (lower (title @ '' '' @ abstract)) d
                \<and> (\<exists>before after. config = before @ (topic, d) # after
                     \<and> (\<forall>(n, e)\<in>set before. n \<noteq> ''general'' \<longrightarrow>
                           topic_score (lower (title @ '' '' @ abstract)) e
                           < topic_score (lower (title @ '' '' @ abstract)) d)
                     \<and> (\<forall>(n, e)\<in>set after. n \<noteq> ''general'' \<longrightarrow>
                           topic_score (lower (title @ '' '' @ abstract)) e
                           \<le> topic_score (lower (title @ '' '' @ abstract)) d)))"
    unfolding tx_def [symmetric]
  proof (cases scores)
    case Nil
    then have "?zero" by (simp add: zero_iff)
    moreover from Nil have "classify config title abstract = Inr (''general'', ttl_hours g)"
      using assms(2) by (simp add: cl)
    ultimately show "\<exists>topic d. classify config title abstract = Inr (topic, ttl_hours d)
          \<and> map_of config topic = Some d
          \<and> (if ?zero then topic = ''general''
              else topic \<noteq> ''general'' \<and> 0 < topic_score tx d
                \<and> (\<exists>before after. config = before @ (topic, d) # after
                     \<and> (\<forall>(n, e)\<in>set before. n \<noteq> ''general'' \<longrightarrow>
                           topic_score tx e < topic_score tx d)
                     \<and> (\<forall>(n, e)\<in>set after. n \<noteq> ''general'' \<longrightarrow>
                           topic_score tx e \<le> topic_score tx d)))"
      using assms(2) by (intro exI [of _ "''general''"] exI [of _ g]) simp
  next
    case (Cons s rest)
    define m where "m = max_from s rest"
    from max_from_split [of s rest] obtain pre post where split: "scores = pre @ m # post"
      and pre: "\<forall>x\<in>set pre. snd x < snd m" and post: "\<forall>x\<in>set post. snd x \<le> snd m"
      unfolding m_def Cons by blast
    show "\<exists>topic d. classify config title abstract = Inr (topic, ttl_hours d)
          \<and> map_of config topic = Some d
          \<and> (if ?zero then topic = ''general''
              else topic \<noteq> ''general'' \<and> 0 < topic_score tx d
                \<and> (\<exists>before after. config = before @ (topic, d) # after
                     \<and> (\<forall>(n, e)\<in>set before. n \<noteq> ''general'' \<longrightarrow>
                           topic_score tx e < topic_score tx d)
                     \<and> (\<forall>(n, e)\<in>set after. n \<noteq> ''general'' \<longrightarrow>
                           topic_score tx e \<le> topic_score tx d)))"
    proof (cases "snd m = 0")
      case True
      with split pre post have "?zero" unfolding zero_iff by auto
      moreover from True Cons have "classify config title abstract = Inr (''general'', ttl_hours g)"
        using assms(2) by (simp add: cl m_def)
      ultimately show ?thesis
        using assms(2) by (intro exI [of _ "''general''"] exI [of _ g]) simp
    next
      case False
      from split have "map f (filter P config) = pre @ m # post" by (simp add: scores)
      from map_filter_split [OF this] obtain before x after where
        config: "config = before @ x # after" and "P x" and fx: "f x = m"
        and before: "map f (filter P before) = pre" and after: "map f (filter P after) = post"
        by blast
      obtain topic d where x: "x = (topic, d)" by (cases x)
      from \<open>P x\<close> x have topic: "topic \<noteq> ''general''" by (simp add: P_def)
      from fx x have m: "m = (topic, topic_score tx d)" by (simp add: f_def)
      from config x have cfg: "config = before @ (topic, d) # after" by simp
      have look: "map_of config topic = Some d"
        by (rule map_of_split [OF assms(1) cfg])
      from False m have pos: "0 < topic_score tx d" by simp
      from pos config x topic have "\<not> ?zero" by auto
      moreover from False Cons m look
      have "classify config title abstract = Inr (topic, ttl_hours d)"
        by (simp add: cl m_def [symmetric])
      moreover from pre before m have "\<forall>(n, e)\<in>set before. n \<noteq> ''general'' \<longrightarrow>
          topic_score tx e < topic_score tx d"
        by (auto simp: f_def P_def)
      moreover from post after m have "\<forall>(n, e)\<in>set after. n \<noteq> ''general'' \<longrightarrow>
          topic_score tx e \<le> topic_score tx d"
        by (auto simp: f_def P_def)
      ultimately show ?thesis using look topic pos config x
        by (intro exI [of _ topic] exI [of _ d]) auto
    qed
  qed
next
  show "classify TOPIC_CONFIG ''Thalamic DBS for Drug-Resistant Epilepsy''
            ''We tested deep brain stimulation in 10 patients with intractable seizures using iEEG.''
          = Inr (''epilepsy_clinical'', 168)"
    by code_simp
qed

theorem classify_first_highest_witness:
  "distinct (map fst TOPIC_CONFIG)
   \<and> map_of TOPIC_CONFIG ''general'' = Some \<lparr>ttl_hours = 24, topic_keywords = []\<rparr>
   \<and> (\<exists>topic d. classify TOPIC_CONFIG ''A review'' [] = Inr (topic, ttl_hours d)
          \<and> map_of TOPIC_CONFIG topic = Some d
          \<and> (if \<forall>(n, e)\<in>set TOPIC_CONFIG. n \<noteq> ''general'' \<longrightarrow>
                   topic_score (lower (''A review'' @ '' '' @ [])) e = 0
              then topic = ''general''
              else topic \<noteq> ''general''
                \<and> 0 < topic_score (lower (''A review'' @ '' '' @ [])) d
                \<and> (\<exists>before after. TOPIC_CONFIG = before @ (topic, d) # after
                     \<and> (\<forall>(n, e)\<in>set before. n \<noteq> ''general'' \<longrightarrow>
                           topic_score (lower (''A review'' @ '' '' @ [])) e
                           < topic_score (lower (''A review'' @ '' '' @ [])) d)
                     \<and> (\<forall>(n, e)\<in>set after. n \<noteq> ''general'' \<longrightarrow>
                           topic_score (lower (''A review'' @ '' '' @ [])) e
                           \<le> topic_score (lower (''A review'' @ '' '' @ [])) d))))"
proof -
  have h1: "distinct (map fst TOPIC_CONFIG)"
    by (simp add: TOPIC_CONFIG_def)
  have h2: "map_of TOPIC_CONFIG ''general'' = Some \<lparr>ttl_hours = 24, topic_keywords = []\<rparr>"
    by (simp add: TOPIC_CONFIG_def)
  note c = conjunct1 [OF classify_first_highest [OF h1 h2, of "''A review''" "[]"]]
  show ?thesis by (rule conjI [OF h1 conjI [OF h2 c]])
qed

section \<open>The result cache of \<open>paper_utils.py\<close>\<close>

record 'p cache_entry =
  entry_results :: "'p list"
  entry_timestamp :: rat
  entry_source :: string
  entry_query_hash :: string

text \<open>
  The store of \<open>diskcache.Cache\<close>: under each key a value and the time at which it expires.
  \<open>cache.set(key, value, expire=e)\<close> at time \<open>now\<close> stores the value until \<open>now + e\<close>, and
  \<open>cache.get(key)\<close> returns it while that time is not reached.  Times are seconds.
\<close>

type_synonym 'p cache = "string \<rightharpoonup> 'p cache_entry \<times> rat"

definition cache_set :: "'p cache \<Rightarrow> rat \<Rightarrow> string \<Rightarrow> 'p cache_entry \<Rightarrow> rat \<Rightarrow> 'p cache" where
  "cache_set cache now key v expire = cache(key \<mapsto> (v, now + expire))"

definition cache_get :: "'p cache \<Rightarrow> rat \<Rightarrow> string \<Rightarrow> 'p cache_entry option" where
  "cache_get cache now key =
     (case cache key of
        None \<Rightarrow> None
      | Some (v, expire_time) \<Rightarrow> if now < expire_time then Some v else None)"

definition cache_delete :: "'p cache \<Rightarrow> string \<Rightarrow> 'p cache" where
  "cache_delete cache key = cache(key := None)"

text \<open>\<open>sha256\<close> stands for \<open>hashlib.sha256(...).hexdigest()\<close>.\<close>

definition get_cache_key :: "(string \<Rightarrow> string) \<Rightarrow> string \<Rightarrow> string \<Rightarrow> string" where
  "get_cache_key sha256 query source = sha256 (strip (lower query) @ '':'' @ source)"

definition cache_results ::
  "(string \<Rightarrow> string) \<Rightarrow> rat \<Rightarrow> 'p cache \<Rightarrow> string \<Rightarrow> 'p list \<Rightarrow> string \<Rightarrow> 'p cache" where
  "cache_results sha256 now cache query results source =
     (let cache_key = get_cache_key sha256 query source;
          cache_entry = \<lparr>entry_results = results, entry_timestamp = now,
                         entry_source = source, entry_query_hash = cache_key\<rparr>
      in cache_set cache now cache_key cache_entry 86400)"

definition get_cached_results ::
  "(string \<Rightarrow> string) \<Rightarrow> rat \<Rightarrow> 'p cache \<Rightarrow> string \<Rightarrow> string \<Rightarrow> 'p list option \<times> 'p cache" where
  "get_cached_results sha256 now cache query source =
     (let cache_key = get_cache_key sha256 query source
      in case cache_get cache now cache_key of
           None \<Rightarrow> (None, cache)
         | Some cache_entry \<Rightarrow>
             if now - entry_timestamp cache_entry < 24 * 3600 then (Some (entry_results cache_entry), cache)
             else (None, cache_delete cache cache_key))"

text \<open>The time to live, in seconds, under which \<open>cache_results\<close> stores an entry.\<close>

definition stored_ttl :: "rat \<Rightarrow> 'p cache \<Rightarrow> string \<Rightarrow> rat option" where
  "stored_ttl now cache key = map_option (\<lambda>(v, expire_time). expire_time - now) (cache key)"

subsection \<open>The time to live is fixed\<close>

text \<open>
  The spec lets the time to live follow the topic of the query: 168 hours for a query that
  classifies as \<open>epilepsy_clinical\<close>.  \<open>cache_results\<close> stores such a query for 24 hours.
\<close>

theorem cache_results_ttl_counterexample:
  "classify TOPIC_CONFIG ''epilepsy seizure'' [] = Inr (''epilepsy_clinical'', 168)
   \<and> stored_ttl 0 (cache_results id 0 Map.empty ''epilepsy seizure'' ([] :: unit list) ''pubmed'')
        (get_cache_key id ''epilepsy seizure'' ''pubmed'') = Some (24 * 3600)
   \<and> (24 :: rat) * 3600 \<noteq> 168 * 3600"
proof -
  have "classify TOPIC_CONFIG ''epilepsy seizure'' [] = Inr (''epilepsy_clinical'', 168)"
    by code_simp
  then show ?thesis
    by (simp add: stored_ttl_def cache_results_def cache_set_def Let_def)
qed

text \<open>
  C1 (as amended).  Every call of \<open>cache_results\<close> stores its entry with a time to live of
  24 hours (86400 seconds), whatever the query, the results and the source; the value is
  fixed when the entry is written, and \<open>get_cached_results\<close> returns the stored results
  exactly while the entry is younger than 24 hours.  No topic classification takes part.
\<close>

theorem cache_results_fixed_ttl:
  "stored_ttl now (cache_results sha256 now cache query results source)
     (get_cache_key sha256 query source) = Some (24 * 3600)
   \<and> fst (get_cached_results sha256 t (cache_results sha256 now cache query results source)
            query source)
     = (if t - now < 24 * 3600 then Some results else None)"
  by (simp add: stored_ttl_def cache_results_def cache_set_def cache_get_def
      get_cached_results_def Let_def)

end
